theory Spec2Isabelle
  imports Main "HOL-Library.Word" "HOL-Library.Code_Target_Nat"
begin

unbundle bit_operations_syntax

section \<open>Data model\<close>

text \<open>
  The module \<^verbatim>\<open>src/2.0/m_totp.cpp\<close> works on \<^verbatim>\<open>std::string\<close> values, which hold
  bytes; they are modelled as \<^typ>\<open>string\<close> (a list of 8-bit characters).  An
  \<^verbatim>\<open>unsigned char\<close> is an 8-bit word, \<^verbatim>\<open>unsigned int\<close> (and a promoted, non-negative
  \<^verbatim>\<open>int\<close>) a 32-bit word, \<^verbatim>\<open>unsigned long\<close> a 64-bit word (LP64).  Values of type
  \<^verbatim>\<open>size_t\<close> are natural numbers; the one place where a \<^verbatim>\<open>size_t\<close> subtraction can go
  below zero has its wrap-around modulo \<open>2 ^ 64\<close> written out.
\<close>

type_synonym byte = "8 word"
type_synonym uint = "32 word"
type_synonym ulong = "64 word"

text \<open>
  Reading or writing a \<^verbatim>\<open>std::string\<close> past its size through \<^verbatim>\<open>operator[]\<close>, shifting
  an \<^verbatim>\<open>unsigned int\<close> by 32 bits or more and overflowing a signed integer are undefined
  in C++; \<^verbatim>\<open>std::string::insert\<close> throws \<^verbatim>\<open>std::length_error\<close> beyond the largest size.
  The model makes each of them a value, so that a function that runs into one returns
  \<open>Inl\<close>.
\<close>

datatype fault = IndexOutOfRange | ShiftOutOfRange | LengthError | SignedOverflow

definition byte_of_char :: "char \<Rightarrow> byte" where
  "byte_of_char c = of_char c"

definition char_of_byte :: "byte \<Rightarrow> char" where
  "char_of_byte b = char_of (unat b)"

definition string_at :: "string \<Rightarrow> nat \<Rightarrow> fault + char" where
  "string_at s i = (if i < length s then Inr (s ! i) else Inl IndexOutOfRange)"

definition string_set :: "string \<Rightarrow> nat \<Rightarrow> char \<Rightarrow> fault + string" where
  "string_set s i c = (if i < length s then Inr (s[i := c]) else Inl IndexOutOfRange)"

definition shr_uint :: "uint \<Rightarrow> nat \<Rightarrow> fault + uint" where
  "shr_uint w n = (if n < 32 then Inr (drop_bit n w) else Inl ShiftOutOfRange)"

text \<open>\<^verbatim>\<open>resize(n)\<close> of a vector or string: cut to \<open>n\<close> elements, or fill up with \<open>v\<close>.\<close>

definition resize :: "nat \<Rightarrow> 'a \<Rightarrow> 'a list \<Rightarrow> 'a list" where
  "resize n v xs = take n xs @ replicate (n - length xs) v"

section \<open>Base32\<close>

definition Base32Chars :: string where
  "Base32Chars = ''ABCDEFGHIJKLMNOPQRSTUVWXYZ234567''"

text \<open>\<^verbatim>\<open>Base32Chars[v]\<close>, with \<open>v\<close> a promoted \<^verbatim>\<open>int\<close>.\<close>

definition b32 :: "uint \<Rightarrow> char" where
  "b32 v = Base32Chars ! unat v"

text \<open>\<^verbatim>\<open>data[j]\<close> of the \<^verbatim>\<open>std::vector<unsigned char>\<close>, promoted to \<^verbatim>\<open>int\<close>.\<close>

definition dat :: "byte list \<Rightarrow> nat \<Rightarrow> uint" where
  "dat data j = ucast (data ! j)"

text \<open>
  The eight indices into \<^verbatim>\<open>Base32Chars\<close> that turn \<open>i\<close> of the loop of
  \<^verbatim>\<open>Base32::Encode\<close> computes, and the eight symbols that it appends.
\<close>

definition Encode_indices :: "byte list \<Rightarrow> nat \<Rightarrow> uint list" where
  "Encode_indices data i =
    [ drop_bit 3 (dat data (i * 5)),
      push_bit 2 (dat data (i * 5) AND 0x07) OR drop_bit 6 (dat data (i * 5 + 1)),
      drop_bit 1 (dat data (i * 5 + 1) AND 0x3f),
      push_bit 4 (dat data (i * 5 + 1) AND 0x01) OR drop_bit 4 (dat data (i * 5 + 2)),
      push_bit 1 (dat data (i * 5 + 2) AND 0x0f) OR drop_bit 7 (dat data (i * 5 + 3)),
      drop_bit 2 (dat data (i * 5 + 3) AND 0x7f),
      push_bit 3 (dat data (i * 5 + 3) AND 0x03) OR drop_bit 5 (dat data (i * 5 + 4)),
      dat data (i * 5 + 4) AND 0x1f ]"

definition Encode_block :: "byte list \<Rightarrow> nat \<Rightarrow> string" where
  "Encode_block data i = map b32 (Encode_indices data i)"

definition Encode_padding :: "nat \<Rightarrow> nat" where
  "Encode_padding rest =
    (if rest = 1 then 6 else if rest = 2 then 3 else if rest = 3 then 3
     else if rest = 4 then 1 else 0)"

text \<open>
  The vector \<^verbatim>\<open>data\<close> of \<^verbatim>\<open>Base32::Encode\<close>, once \<open>len\<close> is known: the input cut or
  filled up with zero bytes to \<open>len\<close> bytes, then filled up to the next multiple of 5.
\<close>

definition Encode_data :: "string \<Rightarrow> nat \<Rightarrow> byte list" where
  "Encode_data input len =
    (let rest = len mod 5;
         data = resize len 0 (map byte_of_char input)
     in if rest \<noteq> 0 then resize (length data + 5 - rest) 0 data else data)"

text \<open>The loop \<^verbatim>\<open>for (size_t i = 0; i < blocks; ++i)\<close>, which appends to \<^verbatim>\<open>ret\<close>.\<close>

definition Encode_loop :: "byte list \<Rightarrow> nat \<Rightarrow> string" where
  "Encode_loop data blocks = foldl (\<lambda>out i. out @ Encode_block data i) [] [0..<blocks]"

text \<open>
  \<^verbatim>\<open>Base32::Encode(input, len)\<close>; \<open>len = 0\<close> is the default argument and stands for the
  length of the input.
\<close>

definition Encode :: "string \<Rightarrow> nat \<Rightarrow> string" where
  "Encode input len0 =
    (let len = (if len0 = 0 then length input else len0);
         blocks = len div 5;
         rest = len mod 5;
         data = Encode_data input len;
         blocks = (if rest \<noteq> 0 then blocks + 1 else blocks);
         out = Encode_loop data blocks;
         padding = Encode_padding rest;
         out = take (length out - padding) out
     in out @ replicate padding CHR ''='')"

text \<open>
  \<^verbatim>\<open>Base32Chars.find(c)\<close>: the first position of \<open>c\<close>, or \<^verbatim>\<open>npos\<close>, the largest
  \<^verbatim>\<open>size_t\<close>.
\<close>

fun find_from :: "nat \<Rightarrow> string \<Rightarrow> char \<Rightarrow> nat" where
  "find_from i [] c = 2 ^ 64 - 1"
| "find_from i (x # xs) c = (if x = c then i else find_from (Suc i) xs c)"

definition find_char :: "string \<Rightarrow> char \<Rightarrow> nat" where
  "find_char s c = find_from 0 s c"

record decode_state =
  buffer :: uint
  left :: nat
  count :: nat
  ret :: string

text \<open>One turn of the loop of \<^verbatim>\<open>Base32::Decode\<close>, on the character \<open>c\<close>.\<close>

definition Decode_step :: "char \<Rightarrow> decode_state \<Rightarrow> fault + decode_state" where
  "Decode_step c s =
    (let val = find_char Base32Chars c in
     if val \<ge> 32 then Inr s
     else
       let buffer' = push_bit 5 (buffer s) OR of_nat val;
           left' = left s + 5
       in if left' \<ge> 8 then
            (case shr_uint buffer' (left' - 8) of
               Inl e \<Rightarrow> Inl e
             | Inr w \<Rightarrow>
                (case string_set (ret s) (count s) (char_of_byte (ucast (w AND 0xff))) of
                   Inl e \<Rightarrow> Inl e
                 | Inr r \<Rightarrow>
                    Inr \<lparr>buffer = buffer', left = left' - 8, count = count s + 1, ret = r\<rparr>))
          else Inr \<lparr>buffer = buffer', left = left', count = count s, ret = ret s\<rparr>)"

fun Decode_loop :: "string \<Rightarrow> decode_state \<Rightarrow> fault + decode_state" where
  "Decode_loop [] s = Inr s"
| "Decode_loop (c # cs) s =
    (case Decode_step c s of Inl e \<Rightarrow> Inl e | Inr s' \<Rightarrow> Decode_loop cs s')"

text \<open>
  The branch after the loop: \<^verbatim>\<open>left - 3\<close> is a \<^verbatim>\<open>size_t\<close> subtraction, which wraps
  around below 3.
\<close>

definition Decode_final :: "decode_state \<Rightarrow> fault + decode_state" where
  "Decode_final s =
    (if left s \<noteq> 0 then
       (let buffer' = push_bit 5 (buffer s) in
        case shr_uint buffer' ((left s + 2 ^ 64 - 3) mod 2 ^ 64) of
          Inl e \<Rightarrow> Inl e
        | Inr w \<Rightarrow>
           (case string_set (ret s) (count s) (char_of_byte (ucast (w AND 0xff))) of
              Inl e \<Rightarrow> Inl e
            | Inr r \<Rightarrow> Inr \<lparr>buffer = buffer', left = left s, count = count s + 1, ret = r\<rparr>))
     else Inr s)"

definition Decode :: "string \<Rightarrow> fault + string" where
  "Decode data =
    (let ret0 = resize ((length data * 5) div 8) (CHR 0x00) [] in
     case Decode_loop data \<lparr>buffer = 0, left = 0, count = 0, ret = ret0\<rparr> of
       Inl e \<Rightarrow> Inl e
     | Inr s \<Rightarrow>
        (case Decode_final s of
           Inl e \<Rightarrow> Inl e
         | Inr s' \<Rightarrow> Inr (resize (count s') (CHR 0x00) (ret s'))))"

section \<open>TOTP\<close>

text \<open>
  \<^verbatim>\<open>HashProvider\<close> is declared in InspIRCd's \<^verbatim>\<open>hash.h\<close>; the module uses its member
  function \<^verbatim>\<open>hmac(key, msg)\<close> and its field \<^verbatim>\<open>out_size\<close> (an \<^verbatim>\<open>unsigned int\<close>), which
  are the two fields of the record.  The \<^verbatim>\<open>dynamic_reference\<close> held by \<^verbatim>\<open>TOTP\<close> may be
  unset, hence the \<open>option\<close>.
\<close>

record HashProvider =
  hmac :: "string \<Rightarrow> string \<Rightarrow> string"
  out_size :: uint

record TOTP =
  Hash :: "HashProvider option"
  Window :: int

text \<open>
  The loop \<^verbatim>\<open>for (int i = 8; i--; time >>= 8) challenge[i] = time;\<close> the first argument
  is the value of \<open>i\<close> before the test.
\<close>

fun challenge_loop :: "nat \<Rightarrow> ulong \<Rightarrow> byte list \<Rightarrow> byte list" where
  "challenge_loop 0 time challenge = challenge"
| "challenge_loop (Suc i) time challenge =
     challenge_loop i (drop_bit 8 time) (challenge[i := ucast time])"

definition challenge_of :: "ulong \<Rightarrow> byte list" where
  "challenge_of time = challenge_loop 8 time (replicate 8 0)"

text \<open>
  The loop that reads \<^verbatim>\<open>hash[offset + i]\<close> for the values of \<open>i\<close> in the list into
  \<^verbatim>\<open>truncatedHash\<close>.
\<close>

fun truncate_loop :: "string \<Rightarrow> nat \<Rightarrow> nat list \<Rightarrow> uint \<Rightarrow> fault + uint" where
  "truncate_loop hash offset [] truncatedHash = Inr truncatedHash"
| "truncate_loop hash offset (i # is) truncatedHash =
    (case string_at hash (offset + i) of
       Inl e \<Rightarrow> Inl e
     | Inr c \<Rightarrow>
        truncate_loop hash offset is (push_bit 8 truncatedHash OR ucast (byte_of_char c)))"

text \<open>
  \<^verbatim>\<open>ConvToStr\<close> is InspIRCd's (\<^verbatim>\<open>inspircd.h\<close>): it writes the number to a
  \<^verbatim>\<open>std::ostringstream\<close>, which gives its decimal digits without leading zeros.
\<close>

definition digit_char :: "nat \<Rightarrow> char" where
  "digit_char d = char_of (48 + d)"

fun ConvToStr :: "nat \<Rightarrow> string" where
  "ConvToStr n =
    (if n < 10 then [digit_char n] else ConvToStr (n div 10) @ [digit_char (n mod 10)])"

declare ConvToStr.simps [simp del]

text \<open>
  \<^verbatim>\<open>TOTP::Generate(secret, time)\<close>.  \<^verbatim>\<open>Hash->out_size - 1\<close> is an \<^verbatim>\<open>unsigned int\<close>
  subtraction, which wraps around at 0; \<^verbatim>\<open>6 - ret.length()\<close> is a \<^verbatim>\<open>size_t\<close> one, and
  \<^verbatim>\<open>insert\<close> throws where it would wrap around.
\<close>

definition Generate :: "TOTP \<Rightarrow> string \<Rightarrow> ulong \<Rightarrow> fault + string" where
  "Generate t secret time =
    (case Hash t of
       None \<Rightarrow> Inr []
     | Some h \<Rightarrow>
        (let challenge = challenge_of time in
         case Decode secret of
           Inl e \<Rightarrow> Inl e
         | Inr key \<Rightarrow>
            (let hash = hmac h key (map char_of_byte challenge) in
             case string_at hash (unat (out_size h - 1)) of
               Inl e \<Rightarrow> Inl e
             | Inr c \<Rightarrow>
                (let offset = unat (ucast (byte_of_char c) AND (0xF :: uint)) in
                 case truncate_loop hash offset [0..<4] 0 of
                   Inl e \<Rightarrow> Inl e
                 | Inr truncatedHash \<Rightarrow>
                    (let truncatedHash = truncatedHash AND 0x7FFFFFFF;
                         truncatedHash = truncatedHash mod 1000000;
                         r = ConvToStr (unat truncatedHash)
                     in if length r \<le> 6
                        then Inr (replicate (6 - length r) CHR ''0'' @ r)
                        else Inl LengthError)))))"

text \<open>C++ division of signed integers truncates towards zero.\<close>

definition sdiv_c :: "int \<Rightarrow> int \<Rightarrow> int" where
  "sdiv_c a b = sgn a * sgn b * (\<bar>a\<bar> div \<bar>b\<bar>)"

definition in_int :: "int \<Rightarrow> bool" where
  "in_int x \<longleftrightarrow> - (2 ^ 31) \<le> x \<and> x < 2 ^ 31"

definition in_long :: "int \<Rightarrow> bool" where
  "in_long x \<longleftrightarrow> - (2 ^ 63) \<le> x \<and> x < 2 ^ 63"

text \<open>The loop of \<^verbatim>\<open>TOTP::Validate\<close>.\<close>

function Validate_loop :: "TOTP \<Rightarrow> string \<Rightarrow> string \<Rightarrow> ulong \<Rightarrow> ulong \<Rightarrow> fault + bool" where
  "Validate_loop t secret code time time_end =
    (if time < time_end then
       (case Generate t secret time of
          Inl e \<Rightarrow> Inl e
        | Inr g \<Rightarrow>
           if g = code then Inr True else Validate_loop t secret code (time + 1) time_end)
     else Inr False)"
  by pat_completeness auto
termination
proof (relation "measure (\<lambda>(t, secret, code, time, time_end). unat time_end - unat time)")
  show "wf (measure (\<lambda>(t, secret, code, time, time_end). unat time_end - unat time))"
    by simp
next
  fix t :: TOTP and secret code :: string and time time_end :: ulong and g :: string
  assume lt: "time < time_end"
  then have less: "unat time < unat time_end"
    by (simp add: word_less_nat_alt)
  have "unat time_end < 2 ^ 64"
    using unsigned_less [of time_end] by simp
  with less have "unat time + unat (1 :: ulong) < 2 ^ LENGTH(64)"
    by simp
  then have "unat (time + 1) = unat time + 1"
    by (simp only: unat_add_lem [THEN iffD1] unat_1)
  with less
  show "((t, secret, code, time + 1, time_end), (t, secret, code, time, time_end))
      \<in> measure (\<lambda>(t, secret, code, time, time_end). unat time_end - unat time)"
    by simp
qed

declare Validate_loop.simps [simp del]

text \<open>
  \<^verbatim>\<open>TOTP::Validate(secret, code)\<close>; \<open>now\<close> is the value of \<^verbatim>\<open>ServerInstance->Time()\<close>, a
  \<^verbatim>\<open>time_t\<close>.  \<^verbatim>\<open>30 * Window\<close> is computed in \<^verbatim>\<open>int\<close>, the sum and the difference in
  \<^verbatim>\<open>long\<close>, and the quotients are converted to \<^verbatim>\<open>unsigned long\<close>.
\<close>

definition Validate :: "TOTP \<Rightarrow> int \<Rightarrow> string \<Rightarrow> string \<Rightarrow> fault + bool" where
  "Validate t now secret code =
    (if in_int (30 * Window t) \<and> in_long (now - 30 * Window t)
        \<and> in_long (now + 30 * Window t)
     then
       (let time = (word_of_int (sdiv_c (now - 30 * Window t) 30) :: ulong);
            time_end = (word_of_int (sdiv_c (now + 30 * Window t) 30) :: ulong)
        in Validate_loop t secret code time time_end)
     else Inl SignedOverflow)"

section \<open>The code of RFC 4226, in the words of the specification\<close>

text \<open>
  The following definitions do not come from the source: they say in arithmetic what the
  specification says of the code.  Four bytes from \<open>offset\<close> on read as a big-endian
  number; dynamic truncation, with the offset from the low four bits of the last byte of
  the digest, the most significant bit cleared and the result reduced modulo
  \<open>1000000\<close>; a number written with exactly \<open>k\<close> decimal digits, zeros in front; and
  the number that a string of decimal digits stands for.
\<close>

definition spec_be32_at :: "string \<Rightarrow> nat \<Rightarrow> nat" where
  "spec_be32_at digest offset =
     of_char (digest ! offset) * 2 ^ 24 + of_char (digest ! (offset + 1)) * 2 ^ 16
     + of_char (digest ! (offset + 2)) * 2 ^ 8 + of_char (digest ! (offset + 3))"

definition spec_dynamic_truncation :: "string \<Rightarrow> nat" where
  "spec_dynamic_truncation digest =
    (let offset = of_char (last digest) mod 16;
         P = spec_be32_at digest offset
     in (P mod 2 ^ 31) mod 1000000)"

fun spec_decimal_padded :: "nat \<Rightarrow> nat \<Rightarrow> string" where
  "spec_decimal_padded 0 n = []"
| "spec_decimal_padded (Suc k) n = spec_decimal_padded k (n div 10) @ [digit_char (n mod 10)]"

definition spec_decimal_value :: "string \<Rightarrow> nat" where
  "spec_decimal_value s = foldl (\<lambda>a c. a * 10 + (of_char c - 48)) 0 s"

text \<open>A list of bytes read as a big-endian number.\<close>

definition spec_be_value :: "byte list \<Rightarrow> nat" where
  "spec_be_value bs = foldl (\<lambda>a b. a * 256 + unat b) 0 bs"

section \<open>Providers for the examples\<close>

text \<open>A provider whose \<^verbatim>\<open>hmac\<close> returns the same digest for every key and message.\<close>

definition fixed_provider :: "string \<Rightarrow> HashProvider" where
  "fixed_provider digest = \<lparr>hmac = (\<lambda>key msg. digest), out_size = of_nat (length digest)\<rparr>"

text \<open>
  A provider whose \<^verbatim>\<open>hmac\<close> returns the digest for one key and one message, and the empty
  string for every other.
\<close>

definition point_provider :: "string \<Rightarrow> string \<Rightarrow> string \<Rightarrow> HashProvider" where
  "point_provider key msg digest =
    \<lparr>hmac = (\<lambda>k m. if k = key \<and> m = msg then digest else []),
     out_size = of_nat (length digest)\<rparr>"

text \<open>
  A provider whose digest is the low four bytes of an 8-byte message followed by 16 zero
  bytes: with it the code of a counter is the counter modulo \<open>2 ^ 31\<close> and \<open>1000000\<close>.
\<close>

definition counter_provider :: HashProvider where
  "counter_provider =
    \<lparr>hmac = (\<lambda>key msg. drop 4 msg @ replicate 16 (CHR 0x00)), out_size = 20\<rparr>"

text \<open>
  Twenty bytes: the last one, \<open>0xF1\<close>, gives the offset 1, and the four bytes from there
  are \<open>0x80 0x00 0x00 0x2A\<close>.
\<close>

definition example_digest :: string where
  "example_digest =
    [CHR 0xFF, CHR 0x80, CHR 0x00, CHR 0x00, CHR 0x2A] @ replicate 14 (CHR 0x00) @ [CHR 0xF1]"

section \<open>Bits and bounds\<close>

lemma length_Base32Chars: "length Base32Chars = 32" by (simp add: Base32Chars_def)
lemma and_masks:
  "x AND 0x01 = take_bit 1 x" "x AND 0x03 = take_bit 2 x" "x AND 0x07 = take_bit 3 x"
  "x AND 0x0f = take_bit 4 x" "x AND 0x1f = take_bit 5 x" "x AND 0x3f = take_bit 6 x"
  "x AND 0x7f = take_bit 7 x" "x AND 0xff = take_bit 8 x" "x AND 0x7FFFFFFF = take_bit 31 x"
  for x :: "'a::len word"
  by (simp_all add: take_bit_eq_mask mask_eq_exp_minus_1)
lemma small_uintI: "(\<And>n. bit v n \<Longrightarrow> n < 5) \<Longrightarrow> unat (v :: uint) < 32"
proof -
  assume a: "\<And>n. bit v n \<Longrightarrow> n < 5"
  have "take_bit 5 v = v"
    by (rule bit_eqI) (auto simp: bit_simps dest: a)
  then have "unat v = take_bit 5 (unat v)" 
    by (metis unsigned_take_bit_eq)
  then show ?thesis using take_bit_nat_less_exp[of 5 "unat v"] by simp
qed
lemma b32_mem: "unat v < 32 \<Longrightarrow> b32 v \<in> set Base32Chars"
  by (simp add: b32_def length_Base32Chars)
lemma dat_bit: "bit (dat data j) n \<Longrightarrow> n < 8"
  by (auto simp: dat_def bit_simps dest: bit_imp_le_length)

section \<open>The shape of the output of \<^verbatim>\<open>Base32::Encode\<close>\<close>

lemma Encode_indices_small: "v \<in> set (Encode_indices data i) \<Longrightarrow> unat v < 32"
  unfolding Encode_indices_def and_masks
  by (auto intro!: small_uintI simp: bit_simps simp del: push_bit_Suc One_nat_def dest!: dat_bit)

lemma Encode_block_alphabet: "set (Encode_block data i) \<subseteq> set Base32Chars"
  by (auto simp: Encode_block_def intro: b32_mem Encode_indices_small)

lemma length_Encode_block: "length (Encode_block data i) = 8"
  by (simp add: Encode_block_def Encode_indices_def)

lemma Encode_loop_Suc: "Encode_loop data (Suc n) = Encode_loop data n @ Encode_block data n"
  by (simp add: Encode_loop_def)

lemma length_Encode_loop: "length (Encode_loop data n) = 8 * n"
  by (induction n) (simp_all add: Encode_loop_Suc length_Encode_block, simp add: Encode_loop_def)

lemma Encode_loop_alphabet: "set (Encode_loop data n) \<subseteq> set Base32Chars"
proof (induction n)
  case 0
  show ?case by (simp add: Encode_loop_def)
next
  case (Suc n)
  with Encode_block_alphabet [of data n] show ?case
    by (simp add: Encode_loop_Suc)
qed

lemma Encode_blocks: "(if len mod 5 \<noteq> 0 then len div 5 + 1 else len div 5) = (len + 4) div (5::nat)"
  by presburger

lemma Encode_padding_table: "Encode_padding (len mod 5) = [0, 6, 3, 3, 1] ! (len mod 5)"
proof -
  have "len mod 5 < 5" by simp
  then consider "len mod 5 = 0" | "len mod 5 = 1" | "len mod 5 = 2" | "len mod 5 = 3" | "len mod 5 = 4"
    by linarith
  then show ?thesis
    by cases (simp_all add: Encode_padding_def)
qed

lemma Encode_padding_le: "Encode_padding (len mod 5) \<le> 8 * ((len + 4) div 5)"
proof (cases "len mod 5 = 0")
  case True
  then show ?thesis by (simp add: Encode_padding_def)
next
  case False
  then have "1 \<le> (len + 4) div 5" by presburger
  moreover have "Encode_padding (len mod 5) \<le> 6"
    by (simp add: Encode_padding_def)
  ultimately show ?thesis by linarith
qed

lemma Encode_eq:
  "Encode input len0 =
    (let len = (if len0 = 0 then length input else len0);
         syms = Encode_loop (Encode_data input len) ((len + 4) div 5);
         padding = Encode_padding (len mod 5)
     in take (length syms - padding) syms @ replicate padding CHR ''='')"
  unfolding Encode_def Let_def Encode_blocks ..

lemma equals_not_Base32: "CHR ''='' \<notin> set Base32Chars"
  by (simp add: Base32Chars_def)

text \<open>
  Claim C4: for an input of length \<open>len\<close>, \<^verbatim>\<open>Encode\<close> strips a number of trailing symbols
  and puts the same number of \<^verbatim>\<open>=\<close> characters in their place; the number depends on
  \<open>len mod 5\<close> alone, by the table 0 \<open>\<mapsto>\<close> 0, 1 \<open>\<mapsto>\<close> 6, 2 \<open>\<mapsto>\<close> 3, 3 \<open>\<mapsto>\<close> 3,
  4 \<open>\<mapsto>\<close> 1.  Here \<open>len\<close> is the length argument, or the length of the input when the
  argument is 0; \<open>syms\<close> are the symbols that the loop produces, none of which is
  \<^verbatim>\<open>=\<close>.
\<close>

theorem Encode_padding_by_remainder:
  "let len = (if len0 = 0 then length input else len0);
       syms = Encode_loop (Encode_data input len) ((len + 4) div 5);
       padding = [0, 6, 3, 3, 1] ! (len mod 5)
   in length syms = 8 * ((len + 4) div 5) \<and> padding \<le> length syms
      \<and> set syms \<subseteq> set Base32Chars \<and> CHR ''='' \<notin> set Base32Chars
      \<and> Encode input len0 = take (length syms - padding) syms @ replicate padding CHR ''=''"
  unfolding Let_def
  using Encode_padding_le [of "if len0 = 0 then length input else len0"]
  by (simp only: Encode_eq Let_def Encode_padding_table [symmetric] length_Encode_loop
      Encode_loop_alphabet equals_not_Base32 simp_thms)

text \<open>
  Claim C7: for every input and length argument, the string that \<^verbatim>\<open>Encode\<close> returns has
  \<open>8 * \<lceil>len / 5\<rceil>\<close> characters, a multiple of 8, all of them from the alphabet
  \<^verbatim>\<open>A-Z2-7\<close> or the padding character \<^verbatim>\<open>=\<close>.
\<close>

theorem Encode_length_alphabet:
  "length (Encode input len0) = 8 * (((if len0 = 0 then length input else len0) + 4) div 5)
   \<and> 8 dvd length (Encode input len0)
   \<and> set (Encode input len0) \<subseteq> set ''ABCDEFGHIJKLMNOPQRSTUVWXYZ234567'' \<union> {CHR ''=''}"
proof -
  define len where "len = (if len0 = 0 then length input else len0)"
  define syms where "syms = Encode_loop (Encode_data input len) ((len + 4) div 5)"
  define padding where "padding = Encode_padding (len mod 5)"
  have enc: "Encode input len0 = take (length syms - padding) syms @ replicate padding CHR ''=''"
    by (simp add: Encode_eq Let_def len_def syms_def padding_def)
  have len_syms: "length syms = 8 * ((len + 4) div 5)"
    by (simp add: syms_def length_Encode_loop)
  have "padding \<le> length syms"
    using Encode_padding_le [of len] by (simp add: padding_def len_syms)
  then have l: "length (Encode input len0) = 8 * ((len + 4) div 5)"
    by (simp add: enc len_syms)
  have "set (take (length syms - padding) syms) \<subseteq> set syms"
    by (rule set_take_subset)
  also have "set syms \<subseteq> set Base32Chars"
    by (simp add: syms_def Encode_loop_alphabet)
  finally have "set (take (length syms - padding) syms) \<subseteq> set Base32Chars" .
  then have "set (Encode input len0) \<subseteq> set Base32Chars \<union> {CHR ''=''}"
    by (auto simp: enc)
  with l show ?thesis
    by (simp add: len_def Base32Chars_def)
qed

section \<open>Decoding an encoded block\<close>

lemma byte_eqI:
  fixes a b :: byte
  assumes "bit a 0 = bit b 0" "bit a 1 = bit b 1" "bit a 2 = bit b 2" "bit a 3 = bit b 3"
    "bit a 4 = bit b 4" "bit a 5 = bit b 5" "bit a 6 = bit b 6" "bit a 7 = bit b 7"
  shows "a = b"
proof (rule bit_eqI)
  fix n
  assume "possible_bit TYPE(byte) n"
  then have "n < 8" by (simp add: possible_bit_def)
  then consider "n = 0" | "n = 1" | "n = 2" | "n = 3" | "n = 4" | "n = 5" | "n = 6" | "n = 7"
    by linarith
  then show "bit a n = bit b n"
    by cases (use assms in simp_all)
qed
lemma find_from_nth: "distinct xs \<Longrightarrow> n < length xs \<Longrightarrow> find_from i xs (xs ! n) = i + n"
proof (induction xs arbitrary: i n)
  case Nil
  then show ?case by simp
next
  case (Cons x xs)
  show ?case
  proof (cases n)
    case 0
    then show ?thesis by simp
  next
    case (Suc m)
    with Cons.prems have "x \<noteq> xs ! m" "m < length xs" "distinct xs"
      by auto
    with Cons.IH [of m "Suc i"] Suc show ?thesis
      by simp
  qed
qed
lemma distinct_Base32Chars: "distinct Base32Chars"
  by (simp add: Base32Chars_def)
lemma find_char_b32: "unat v < 32 \<Longrightarrow> find_char Base32Chars (b32 v) = unat v"
  using find_from_nth [of Base32Chars "unat v" 0]
  by (simp add: find_char_def b32_def distinct_Base32Chars length_Base32Chars)

lemma odd_ucast_byte: "odd (ucast d :: uint) \<longleftrightarrow> bit (d :: byte) 0"
  by (metis bit_0 bit_ucast_iff len_gt_0)

lemma emit1:
  fixes d0 d1 :: byte and X :: uint
  shows "ucast (take_bit 8 (drop_bit 2 (push_bit 5 (push_bit 5 X OR drop_bit 3 (ucast d0))
            OR (push_bit 2 (take_bit 3 (ucast d0)) OR drop_bit 6 (ucast d1))))) = d0"
  by (rule byte_eqI) (auto simp: bit_simps eval_nat_numeral odd_ucast_byte simp del: push_bit_Suc dest: bit_imp_le_length)
lemma emit2:
  fixes d1 d2 :: byte and X :: uint
  shows "ucast (take_bit 8 (drop_bit 4 (push_bit 5 (push_bit 5 (push_bit 5 X OR (push_bit 2 (take_bit 3 (ucast d0)) OR drop_bit 6 (ucast d1)))
         OR drop_bit 1 (take_bit 6 (ucast d1)))
            OR (push_bit 4 (take_bit 1 (ucast d1)) OR drop_bit 4 (ucast d2))))) = d1"
  by (rule byte_eqI) (auto simp: bit_simps eval_nat_numeral odd_ucast_byte simp del: push_bit_Suc dest: bit_imp_le_length)
lemma emit3:
  fixes d2 d3 :: byte and X :: uint
  shows "ucast (take_bit 8 (drop_bit 1 (push_bit 5 (push_bit 5 X OR (push_bit 4 (take_bit 1 (ucast d1)) OR drop_bit 4 (ucast d2)))
            OR (push_bit 1 (take_bit 4 (ucast d2)) OR drop_bit 7 (ucast d3))))) = d2"
  by (rule byte_eqI) (auto simp: bit_simps eval_nat_numeral odd_ucast_byte simp del: push_bit_Suc dest: bit_imp_le_length)
lemma emit4:
  fixes d3 d4 :: byte and X :: uint
  shows "ucast (take_bit 8 (drop_bit 3 (push_bit 5 (push_bit 5 (push_bit 5 X OR (push_bit 1 (take_bit 4 (ucast d2)) OR drop_bit 7 (ucast d3)))
         OR drop_bit 2 (take_bit 7 (ucast d3)))
            OR (push_bit 3 (take_bit 2 (ucast d3)) OR drop_bit 5 (ucast d4))))) = d3"
  by (rule byte_eqI) (auto simp: bit_simps eval_nat_numeral odd_ucast_byte simp del: push_bit_Suc dest: bit_imp_le_length)
lemma emit5:
  fixes d4 :: byte and X :: uint
  shows "ucast (take_bit 8 (drop_bit 0 (push_bit 5 (push_bit 5 X OR (push_bit 3 (take_bit 2 (ucast d3)) OR drop_bit 5 (ucast d4)))
            OR take_bit 5 (ucast d4)))) = d4"
  by (rule byte_eqI) (auto simp: bit_simps eval_nat_numeral odd_ucast_byte simp del: push_bit_Suc dest: bit_imp_le_length)

lemma Decode_step_b32:
  assumes "unat v < 32"
  shows "Decode_step (b32 v) \<lparr>buffer = b, left = l, count = c, ret = r\<rparr> =
    (if 8 \<le> l + 5 then
       (if l + 5 - 8 < 32 then
          (if c < length r then
             Inr \<lparr>buffer = push_bit 5 b OR v, left = l + 5 - 8, count = c + 1,
               ret = r[c := char_of_byte (ucast (take_bit 8 (drop_bit (l + 5 - 8) (push_bit 5 b OR v))))]\<rparr>
           else Inl IndexOutOfRange)
        else Inl ShiftOutOfRange)
     else Inr \<lparr>buffer = push_bit 5 b OR v, left = l + 5, count = c, ret = r\<rparr>)"
  using assms
  by (simp add: Decode_step_def find_char_b32 Let_def shr_uint_def string_set_def and_masks)

lemma Decode_loop_8:
  assumes v: "unat v0 < 32" "unat v1 < 32" "unat v2 < 32" "unat v3 < 32"
      "unat v4 < 32" "unat v5 < 32" "unat v6 < 32" "unat v7 < 32"
    and B: "B1 = push_bit 5 X OR v0" "B2 = push_bit 5 B1 OR v1" "B3 = push_bit 5 B2 OR v2"
      "B4 = push_bit 5 B3 OR v3" "B5 = push_bit 5 B4 OR v4" "B6 = push_bit 5 B5 OR v5"
      "B7 = push_bit 5 B6 OR v6" "B8 = push_bit 5 B7 OR v7"
    and c: "c + 5 \<le> length r"
  shows "Decode_loop (map b32 [v0, v1, v2, v3, v4, v5, v6, v7])
      \<lparr>buffer = X, left = 0, count = c, ret = r\<rparr> =
    Inr \<lparr>buffer = B8, left = 0, count = c + 5,
      ret = r[c := char_of_byte (ucast (take_bit 8 (drop_bit 2 B2))),
              c + 1 := char_of_byte (ucast (take_bit 8 (drop_bit 4 B4))),
              c + 2 := char_of_byte (ucast (take_bit 8 (drop_bit 1 B5))),
              c + 3 := char_of_byte (ucast (take_bit 8 (drop_bit 3 B7))),
              c + 4 := char_of_byte (ucast (take_bit 8 (drop_bit 0 B8)))]\<rparr>"
proof -
  have n: "c + 3 = Suc (Suc (Suc c))" "c + 4 = Suc (Suc (Suc (Suc c)))"
    by simp_all
  from c show ?thesis
    by (simp add: Decode_step_b32 v B [symmetric] n del: drop_bit_0)
qed

lemma Decode_loop_Encode_block:
  assumes c: "c + 5 \<le> length r"
  shows "\<exists>X'. Decode_loop (Encode_block data i) \<lparr>buffer = X, left = 0, count = c, ret = r\<rparr> =
    Inr \<lparr>buffer = X', left = 0, count = c + 5,
      ret = r[c := char_of_byte (data ! (i * 5)),
              c + 1 := char_of_byte (data ! (i * 5 + 1)),
              c + 2 := char_of_byte (data ! (i * 5 + 2)),
              c + 3 := char_of_byte (data ! (i * 5 + 3)),
              c + 4 := char_of_byte (data ! (i * 5 + 4))]\<rparr>"
proof -
  define d0 d1 d2 d3 d4 where d: "d0 = data ! (i * 5)" "d1 = data ! (i * 5 + 1)"
    "d2 = data ! (i * 5 + 2)" "d3 = data ! (i * 5 + 3)" "d4 = data ! (i * 5 + 4)"
  define v0 v1 v2 v3 v4 v5 v6 v7 :: uint where v:
    "v0 = drop_bit 3 (ucast d0)"
    "v1 = push_bit 2 (take_bit 3 (ucast d0)) OR drop_bit 6 (ucast d1)"
    "v2 = drop_bit 1 (take_bit 6 (ucast d1))"
    "v3 = push_bit 4 (take_bit 1 (ucast d1)) OR drop_bit 4 (ucast d2)"
    "v4 = push_bit 1 (take_bit 4 (ucast d2)) OR drop_bit 7 (ucast d3)"
    "v5 = drop_bit 2 (take_bit 7 (ucast d3))"
    "v6 = push_bit 3 (take_bit 2 (ucast d3)) OR drop_bit 5 (ucast d4)"
    "v7 = take_bit 5 (ucast d4)"
  define B1 B2 B3 B4 B5 B6 B7 B8 where B:
    "B1 = push_bit 5 X OR v0" "B2 = push_bit 5 B1 OR v1" "B3 = push_bit 5 B2 OR v2"
    "B4 = push_bit 5 B3 OR v3" "B5 = push_bit 5 B4 OR v4" "B6 = push_bit 5 B5 OR v5"
    "B7 = push_bit 5 B6 OR v6" "B8 = push_bit 5 B7 OR v7"
  have ind: "Encode_indices data i = [v0, v1, v2, v3, v4, v5, v6, v7]"
    unfolding Encode_indices_def and_masks dat_def v d ..
  then have "\<forall>v \<in> set [v0, v1, v2, v3, v4, v5, v6, v7]. unat v < 32"
    using Encode_indices_small [of _ data i] by simp
  then have small: "unat v0 < 32" "unat v1 < 32" "unat v2 < 32" "unat v3 < 32"
      "unat v4 < 32" "unat v5 < 32" "unat v6 < 32" "unat v7 < 32"
    by simp_all
  have e1: "ucast (take_bit 8 (drop_bit 2 B2)) = d0"
    unfolding B v by (rule emit1)
  have e2: "ucast (take_bit 8 (drop_bit 4 B4)) = d1"
    unfolding B(2-4) v by (rule emit2)
  have e3: "ucast (take_bit 8 (drop_bit 1 B5)) = d2"
    unfolding B(4-5) v by (rule emit3)
  have e4: "ucast (take_bit 8 (drop_bit 3 B7)) = d3"
    unfolding B(5-7) v by (rule emit4)
  have e5: "ucast (take_bit 8 (drop_bit 0 B8)) = d4"
    unfolding B(7-8) v by (rule emit5)
  show ?thesis
    unfolding Encode_block_def ind
    by (rule exI [of _ B8])
      (simp only: Decode_loop_8 [OF small B c] e1 e2 e3 e4 e5 d)
qed

lemma Decode_loop_append:
  "Decode_loop (xs @ ys) s =
    (case Decode_loop xs s of Inl e \<Rightarrow> Inl e | Inr s' \<Rightarrow> Decode_loop ys s')"
  by (induction xs arbitrary: s) (simp_all split: sum.splits)

lemma char_of_byte_of_char: "char_of_byte (byte_of_char c) = c"
proof -
  have "unat (of_char c :: byte) = unat (of_nat (of_char c) :: byte)"
    by (simp only: of_nat_of_char)
  also have "\<dots> = of_char c"
    by (simp add: unat_of_nat)
  finally show ?thesis
    by (simp add: char_of_byte_def byte_of_char_def)
qed

lemma Decode_loop_Encode_loop:
  assumes "5 * n \<le> length r0"
  shows "\<exists>X r. Decode_loop (Encode_loop data n) \<lparr>buffer = 0, left = 0, count = 0, ret = r0\<rparr> =
        Inr \<lparr>buffer = X, left = 0, count = 5 * n, ret = r\<rparr>
      \<and> length r = length r0 \<and> (\<forall>j < 5 * n. r ! j = char_of_byte (data ! j))"
  using assms
proof (induction n)
  case 0
  show ?case by (simp add: Encode_loop_def)
next
  case (Suc n)
  then obtain X r where loop: "Decode_loop (Encode_loop data n) \<lparr>buffer = 0, left = 0, count = 0, ret = r0\<rparr> =
        Inr \<lparr>buffer = X, left = 0, count = 5 * n, ret = r\<rparr>"
      and len: "length r = length r0" and nth: "\<And>j. j < 5 * n \<Longrightarrow> r ! j = char_of_byte (data ! j)"
    by auto
  define c where "c = 5 * n"
  from Suc.prems len have c: "c + 5 \<le> length r"
    by (simp add: c_def)
  define r' where "r' = r[c := char_of_byte (data ! (n * 5)),
              c + 1 := char_of_byte (data ! (n * 5 + 1)),
              c + 2 := char_of_byte (data ! (n * 5 + 2)),
              c + 3 := char_of_byte (data ! (n * 5 + 3)),
              c + 4 := char_of_byte (data ! (n * 5 + 4))]"
  from Decode_loop_Encode_block [OF c, of data n X]
  obtain X' where block: "Decode_loop (Encode_block data n) \<lparr>buffer = X, left = 0, count = c, ret = r\<rparr> =
    Inr \<lparr>buffer = X', left = 0, count = c + 5, ret = r'\<rparr>"
    unfolding r'_def by blast
  have "Decode_loop (Encode_loop data (Suc n)) \<lparr>buffer = 0, left = 0, count = 0, ret = r0\<rparr> =
      Inr \<lparr>buffer = X', left = 0, count = 5 * Suc n, ret = r'\<rparr>"
    using loop block by (simp add: Encode_loop_Suc Decode_loop_append c_def)
  moreover have "length r' = length r0"
    by (simp add: r'_def len)
  moreover have "r' ! j = char_of_byte (data ! j)" if "j < 5 * Suc n" for j
  proof (cases "j < c")
    case True
    then show ?thesis
      using nth [of j] by (simp add: r'_def c_def)
  next
    case False
    with that have "c \<le> j" "j < c + 5"
      by (simp_all add: c_def)
    then consider "j = c" | "j = c + 1" | "j = c + 2" | "j = c + 3" | "j = c + 4"
      by linarith
    then show ?thesis
      using c by cases (simp_all add: r'_def, simp_all add: c_def mult.commute)
  qed
  ultimately show ?case
    by blast
qed

text \<open>
  Claim C3: for every byte sequence whose length is a multiple of 5, decoding what
  \<^verbatim>\<open>Encode\<close> returns gives back exactly the bytes (with the length left to its default
  or passed explicitly), and \<^verbatim>\<open>Decode\<close> stays within its buffer and its shift range.
\<close>

theorem Decode_Encode_aligned:
  assumes aligned: "length bytes mod 5 = 0"
    and len0: "len0 = 0 \<or> len0 = length bytes"
  shows "Decode (Encode bytes len0) = Inr bytes"
proof -
  define n where "n = length bytes div 5"
  from aligned have len: "length bytes = 5 * n"
    by (simp add: n_def) presburger
  define data where "data = map byte_of_char bytes"
  from len0 have "(if len0 = 0 then length bytes else len0) = 5 * n"
    by (auto simp: len)
  then have enc: "Encode bytes len0 = Encode_loop data n"
    by (simp add: Encode_eq Let_def Encode_data_def resize_def Encode_padding_def
        data_def len length_Encode_loop)
  define r0 :: string where "r0 = replicate (5 * n) (CHR 0x00)"
  have r0: "resize ((length (Encode_loop data n) * 5) div 8) (CHR 0x00) [] = r0"
    by (simp add: resize_def length_Encode_loop r0_def)
  have "5 * n \<le> length r0"
    by (simp add: r0_def)
  from Decode_loop_Encode_loop [OF this, of data]
  obtain X r where loop: "Decode_loop (Encode_loop data n) \<lparr>buffer = 0, left = 0, count = 0, ret = r0\<rparr> =
        Inr \<lparr>buffer = X, left = 0, count = 5 * n, ret = r\<rparr>"
      and lr: "length r = length r0" and nth: "\<And>j. j < 5 * n \<Longrightarrow> r ! j = char_of_byte (data ! j)"
    by blast
  have "r = bytes"
  proof (rule nth_equalityI)
    show "length r = length bytes"
      by (simp add: lr r0_def len)
  next
    fix j
    assume "j < length r"
    then have "j < 5 * n"
      by (simp add: lr r0_def)
    then show "r ! j = bytes ! j"
      using nth [of j] by (simp add: data_def len char_of_byte_of_char)
  qed
  moreover have "Decode (Encode bytes len0) =
    (case Decode_loop (Encode_loop data n) \<lparr>buffer = 0, left = 0, count = 0, ret = r0\<rparr> of
       Inl e \<Rightarrow> Inl e
     | Inr s \<Rightarrow>
        (case Decode_final s of
           Inl e \<Rightarrow> Inl e
         | Inr s' \<Rightarrow> Inr (resize (count s') (CHR 0x00) (ret s'))))"
    by (simp only: Decode_def enc Let_def r0)
  ultimately show ?thesis
    by (simp add: loop Decode_final_def resize_def len)
qed

theorem Decode_Encode_aligned_witness:
  "length ''HelloWorld'' mod 5 = 0 \<and> Decode (Encode ''HelloWorld'' 0) = Inr ''HelloWorld''"
  using Decode_Encode_aligned [of "''HelloWorld''" 0] by simp

section \<open>The code that \<^verbatim>\<open>TOTP::Generate\<close> returns\<close>

lemma length_decimal_padded: "length (spec_decimal_padded k n) = k"
  by (induction k arbitrary: n) simp_all

lemma digit_char_less_10:
  assumes "d < 10"
  shows "digit_char d \<in> set ''0123456789''"
proof -
  from assms have "d = 0 \<or> d = 1 \<or> d = 2 \<or> d = 3 \<or> d = 4 \<or> d = 5 \<or> d = 6
      \<or> d = 7 \<or> d = 8 \<or> d = 9"
    by arith
  then show ?thesis
    by (elim disjE) (simp_all add: digit_char_def char_of_eq_iff)
qed

lemma digit_char_0: "digit_char 0 = CHR ''0''"
  by (simp add: digit_char_def char_of_eq_iff)

lemma of_char_digit_char: "d < 10 \<Longrightarrow> of_char (digit_char d) = 48 + d"
  by (simp add: digit_char_def)

lemma spec_decimal_padded_zero: "spec_decimal_padded k 0 = replicate k CHR ''0''"
  by (induction k) (simp_all add: replicate_append_same digit_char_0)

lemma ConvToStr_padded:
  "n < 10 ^ k \<Longrightarrow> 0 < k \<Longrightarrow>
    length (ConvToStr n) \<le> k
    \<and> replicate (k - length (ConvToStr n)) CHR ''0'' @ ConvToStr n = spec_decimal_padded k n"
proof (induction k arbitrary: n)
  case 0
  then show ?case by simp
next
  case (Suc k)
  show ?case
  proof (cases "n < 10")
    case True
    then show ?thesis
      by (simp add: ConvToStr.simps [of n] spec_decimal_padded_zero)
  next
    case False
    with Suc.prems have "n div 10 < 10 ^ k" "0 < k"
      by (auto simp: less_mult_imp_div_less intro: Suc_lessI gr0I)
    from Suc.IH [OF this] False show ?thesis
      by (simp add: ConvToStr.simps [of n] Suc_diff_le)
  qed
qed

lemma spec_decimal_value_padded: "spec_decimal_value (spec_decimal_padded k n) = n mod 10 ^ k"
proof (induction k arbitrary: n)
  case 0
  show ?case by (simp add: spec_decimal_value_def)
next
  case (Suc k)
  have "spec_decimal_value (spec_decimal_padded (Suc k) n) =
      spec_decimal_value (spec_decimal_padded k (n div 10)) * 10 + n mod 10"
    by (simp add: spec_decimal_value_def of_char_digit_char)
  also have "\<dots> = 10 * (n div 10 mod 10 ^ k) + n mod 10"
    by (simp add: Suc.IH)
  also have "\<dots> = n mod 10 ^ Suc k"
    by (simp add: mod_mult2_eq)
  finally show ?case .
qed

lemma spec_decimal_padded_digits: "set (spec_decimal_padded k n) \<subseteq> set ''0123456789''"
proof (induction k arbitrary: n)
  case 0
  show ?case by simp
next
  case (Suc k)
  have "digit_char (n mod 10) \<in> set ''0123456789''"
    by (rule digit_char_less_10) simp
  with Suc.IH [of "n div 10"] show ?case
    by simp
qed


lemma unat_byte_of_char: "unat (byte_of_char c) = of_char c"
proof -
  have "unat (of_char c :: byte) = unat (of_nat (of_char c) :: byte)"
    by (simp only: of_nat_of_char)
  also have "\<dots> = of_char c"
    by (simp add: unat_of_nat)
  finally show ?thesis
    by (simp add: byte_of_char_def)
qed

lemma unat_ucast_byte: "unat (ucast (b :: byte) :: uint) = unat b"
proof -
  have "unat b < 2 ^ LENGTH(8)"
    by (rule unsigned_less)
  then have "unat b < 2 ^ 32"
    by simp
  then show ?thesis
    by (simp add: unsigned_ucast_eq take_bit_nat_eq_self)
qed

lemma offset_eq: "unat (ucast (byte_of_char c) AND (0xF :: uint)) = of_char c mod 16"
proof -
  have "ucast (byte_of_char c) AND (0xF :: uint) = take_bit 4 (ucast (byte_of_char c))"
    by (simp add: take_bit_eq_mask mask_eq_exp_minus_1)
  moreover have "unat (take_bit 4 y) = unat y mod 16" for y :: uint
    by (simp add: take_bit_eq_mod unat_mod)
  ultimately show ?thesis
    by (simp only: unat_byte_of_char unat_ucast_byte)
qed

lemma shift_in_byte:
  fixes x :: uint and b :: byte
  assumes "unat x < 2 ^ 24"
  shows "unat (push_bit 8 x OR ucast b) = unat x * 256 + unat b"
proof -
  have "push_bit 8 x AND ucast b = 0"
    by (rule bit_eqI) (auto simp: bit_simps dest: bit_imp_le_length)
  then have "push_bit 8 x OR ucast b = push_bit 8 x + ucast b"
    by (simp add: disjunctive_add_eq_or)
  moreover have "unat b < 2 ^ LENGTH(8)"
    by (rule unsigned_less)
  then have b: "unat b < 256"
    by simp
  moreover from assms have "unat x * unat (256 :: uint) < 2 ^ LENGTH(32)"
    by simp
  then have m: "unat (x * 256) = unat x * 256"
    by (simp only: unat_mult_lem [THEN iffD1]) simp
  moreover from assms b have "unat (x * 256) + unat (ucast b :: uint) < 2 ^ LENGTH(32)"
    by (simp add: m unat_ucast_byte)
  then have "unat (x * 256 + ucast b) = unat (x * 256) + unat (ucast b :: uint)"
    by (simp only: unat_add_lem [THEN iffD1])
  ultimately show ?thesis
    by (simp add: push_bit_eq_mult unat_ucast_byte)
qed

lemma reduce_eq: "unat (((w :: uint) AND 0x7FFFFFFF) mod 1000000) = unat w mod 2 ^ 31 mod 1000000"
proof -
  have "w AND 0x7FFFFFFF = take_bit 31 w"
    by (simp add: take_bit_eq_mask mask_eq_exp_minus_1)
  moreover have "unat (take_bit 31 w) = unat w mod 2 ^ 31"
    by (simp add: take_bit_eq_mod unat_mod)
  ultimately show ?thesis
    by (simp add: unat_mod)
qed

lemma last_at:
  assumes "unat (n :: uint) = length digest" "digest \<noteq> []"
  shows "string_at digest (unat (n - 1)) = Inr (last digest)"
proof -
  from assms have "n \<noteq> 0"
    by auto
  then have "unat (n - 1) = length digest - 1"
    by (simp add: unat_minus_one assms)
  with assms show ?thesis
    by (simp add: string_at_def last_conv_nth)
qed

lemma truncate_loop_be32:
  assumes "offset + 4 \<le> length digest"
  shows "\<exists>w. truncate_loop digest offset [0..<4] 0 = Inr w \<and> unat w = spec_be32_at digest offset"
proof -
  define b :: "nat \<Rightarrow> uint" where "b i = ucast (byte_of_char (digest ! (offset + i)))" for i
  define w1 w2 w3 w4 :: uint where "w1 = push_bit 8 0 OR b 0" and "w2 = push_bit 8 w1 OR b 1"
    and "w3 = push_bit 8 w2 OR b 2" and "w4 = push_bit 8 w3 OR b 3"
  have upt: "[0..<4] = [0, 1, 2, 3]"
    by (simp add: upt_rec)
  from assms have "truncate_loop digest offset [0..<4] 0 = Inr w4"
    by (simp add: upt string_at_def w1_def w2_def w3_def w4_def b_def)
  moreover have "unat w4 = spec_be32_at digest offset"
  proof -
    define c where "c i = (of_char (digest ! (offset + i)) :: nat)" for i
    have c: "c i < 256" for i
      by (simp add: c_def)
    have ub: "unat (b i) = c i" for i
      by (simp add: b_def c_def unat_ucast_byte unat_byte_of_char)
    have u1: "unat w1 = c 0"
      unfolding w1_def using shift_in_byte [of 0 "byte_of_char (digest ! (offset + 0))"]
      by (simp add: b_def c_def unat_byte_of_char)
    have "unat w1 < 2 ^ 24"
      unfolding u1 using c [of 0] by simp
    then have u2: "unat w2 = c 0 * 256 + c 1"
      unfolding w2_def b_def using shift_in_byte [of w1 "byte_of_char (digest ! (offset + 1))"]
      by (simp add: u1 c_def unat_byte_of_char)
    have "unat w2 < 2 ^ 24"
      unfolding u2 using c [of 0] c [of 1] by simp
    then have u3: "unat w3 = (c 0 * 256 + c 1) * 256 + c 2"
      unfolding w3_def b_def using shift_in_byte [of w2 "byte_of_char (digest ! (offset + 2))"]
      by (simp add: u2 c_def unat_byte_of_char)
    have "unat w3 < 2 ^ 24"
      unfolding u3 using c [of 0] c [of 1] c [of 2] by simp
    then have "unat w4 = ((c 0 * 256 + c 1) * 256 + c 2) * 256 + c 3"
      unfolding w4_def b_def using shift_in_byte [of w3 "byte_of_char (digest ! (offset + 3))"]
      by (simp add: u3 c_def unat_byte_of_char)
    then show ?thesis
      by (simp add: spec_be32_at_def c_def)
  qed
  ultimately show ?thesis
    by blast
qed



lemma spec_decimal_padded_6:
  "spec_decimal_padded 6 n =
    [digit_char (n div 100000 mod 10), digit_char (n div 10000 mod 10),
     digit_char (n div 1000 mod 10), digit_char (n div 100 mod 10),
     digit_char (n div 10 mod 10), digit_char (n mod 10)]"
proof -
  have six: "(6::nat) = Suc (Suc (Suc (Suc (Suc (Suc 0)))))"
    by simp
  show ?thesis
    unfolding six spec_decimal_padded.simps by (simp add: div_mult2_eq [symmetric])
qed
lemma digit_chars: "digit_char 0 = CHR 0x30" "digit_char 4 = CHR 0x34" "digit_char 2 = CHR 0x32"
  by (simp_all add: digit_char_def char_of_eq_iff)


lemma Generate_code:
  assumes provider: "Hash t = Some h"
    and key: "Decode secret = Inr key"
    and digest: "digest = hmac h key (map char_of_byte (challenge_of time))"
    and size: "unat (out_size h) = length digest"
    and offset: "of_char (last digest) mod 16 + 4 \<le> length digest"
  shows "Generate t secret time = Inr (spec_decimal_padded 6 (spec_dynamic_truncation digest))"
    and "spec_dynamic_truncation digest < 10 ^ 6"
proof -
  define off :: nat where "off = of_char (last digest) mod 16"
  from offset have "digest \<noteq> []"
    by auto
  with size have last: "string_at digest (unat (out_size h - 1)) = Inr (last digest)"
    by (rule last_at)
  from offset obtain w where loop: "truncate_loop digest off [0..<4] 0 = Inr w"
      and w: "unat w = spec_be32_at digest off"
    using truncate_loop_be32 [of off digest] by (auto simp: off_def)
  define v where "v = unat ((w AND 0x7FFFFFFF) mod 1000000)"
  have v: "v = spec_dynamic_truncation digest"
    by (simp add: v_def reduce_eq w spec_dynamic_truncation_def off_def)
  have small: "v < 10 ^ 6"
    by (simp add: v reduce_eq spec_dynamic_truncation_def)
  then have conv: "length (ConvToStr v) \<le> 6"
      "replicate (6 - length (ConvToStr v)) CHR ''0'' @ ConvToStr v = spec_decimal_padded 6 v"
    using ConvToStr_padded [of v 6] by simp_all
  have "Generate t secret time = Inr (spec_decimal_padded 6 v)"
    by (simp add: Generate_def provider key digest [symmetric] last offset_eq
        off_def [symmetric] loop v_def [symmetric] conv Let_def)
  then show "Generate t secret time = Inr (spec_decimal_padded 6 (spec_dynamic_truncation digest))"
    by (simp only: v)
  from small show "spec_dynamic_truncation digest < 10 ^ 6"
    by (simp only: v)
qed

text \<open>
  Claim C1: with a provider configured, \<^verbatim>\<open>Generate\<close> returns the code of RFC 4226 for
  the digest: the offset is the last byte of the digest \<open>AND 0x0F\<close>, the four bytes from
  the offset on are read as a big-endian number, which is taken modulo \<open>2 ^ 31\<close> and then
  modulo \<open>1000000\<close> and written with exactly 6 decimal digits, zeros in front; so the
  result is always 6 digits that stand for a number of at most 999999.  The hypotheses say
  what the code needs to get that far: the secret decodes (see C9 and C10), the digest has
  the \<^verbatim>\<open>out_size\<close> bytes that the provider announces, and the four bytes from the offset
  on are inside the digest, as they are for every digest of 19 bytes or more.
\<close>

theorem Generate_dynamic_truncation:
  assumes provider: "Hash t = Some h"
    and key: "Decode secret = Inr key"
    and digest: "digest = hmac h key (map char_of_byte (challenge_of time))"
    and size: "unat (out_size h) = length digest"
    and offset: "of_char (last digest) mod 16 + 4 \<le> length digest"
  shows "let code = spec_decimal_padded 6 (spec_dynamic_truncation digest)
    in Generate t secret time = Inr code \<and> length code = 6 \<and> set code \<subseteq> set ''0123456789''
      \<and> spec_decimal_value code = spec_dynamic_truncation digest
      \<and> spec_dynamic_truncation digest \<le> 999999"
proof -
  define v where "v = spec_dynamic_truncation digest"
  have code: "Generate t secret time = Inr (spec_decimal_padded 6 v)" and small: "v < 10 ^ 6"
    unfolding v_def using assms by (rule Generate_code)+
  from small have "spec_decimal_value (spec_decimal_padded 6 v) = v"
    by (simp add: spec_decimal_value_padded)
  moreover have "length (spec_decimal_padded 6 v) = 6"
    by (rule length_decimal_padded)
  moreover have "set (spec_decimal_padded 6 v) \<subseteq> set ''0123456789''"
    by (rule spec_decimal_padded_digits)
  moreover from small have "v \<le> 999999"
    by simp
  ultimately show ?thesis
    using code unfolding Let_def v_def [symmetric] by blast
qed

theorem Generate_dynamic_truncation_witness:
  "Hash \<lparr>Hash = Some (fixed_provider example_digest), Window = 5\<rparr> = Some (fixed_provider example_digest)
   \<and> Decode ''JBSWY3DP'' = Inr ''Hello''
   \<and> unat (out_size (fixed_provider example_digest)) = length example_digest
   \<and> of_char (last example_digest) mod 16 + 4 \<le> length example_digest
   \<and> spec_dynamic_truncation example_digest = 42
   \<and> Generate \<lparr>Hash = Some (fixed_provider example_digest), Window = 5\<rparr> ''JBSWY3DP'' 1 = Inr ''000042''"
proof -
  have key: "Decode ''JBSWY3DP'' = Inr ''Hello''"
    by code_simp
  have size: "unat (out_size (fixed_provider example_digest)) = length example_digest"
    by (simp add: fixed_provider_def example_digest_def)
  have offset: "of_char (last example_digest) mod 16 + 4 \<le> length example_digest"
    by (simp add: example_digest_def)
  have val: "spec_dynamic_truncation example_digest = 42"
    by (simp add: spec_dynamic_truncation_def spec_be32_at_def example_digest_def)
  have code: "spec_decimal_padded 6 42 = ''000042''"
    by (simp add: spec_decimal_padded_6 digit_chars)
  have "example_digest = hmac (fixed_provider example_digest) ''Hello'' (map char_of_byte (challenge_of 1))"
    by (simp add: fixed_provider_def)
  from Generate_dynamic_truncation [OF _ key this size offset, of "\<lparr>Hash = Some (fixed_provider example_digest), Window = 5\<rparr>"]
  show ?thesis
    by (simp add: Let_def key size offset val code)
qed

section \<open>The message and the key of the HMAC\<close>

lemma unat_byte_at: "unat (ucast (drop_bit k (time :: ulong)) :: byte) = unat time div 2 ^ k mod 256"
proof -
  have "unat (ucast w :: byte) = unat w mod 256" for w :: ulong
    by (simp add: unsigned_ucast_eq take_bit_eq_mod)
  moreover have "unat (drop_bit k time) = drop_bit k (unat time)"
    by (rule unat_drop_bit_eq)
  moreover have "drop_bit k (unat time) = unat time div 2 ^ k"
    by (rule drop_bit_eq_div)
  ultimately show ?thesis
    by (simp only:)
qed

lemma be_step: "(x::nat) div (n * 256) * 256 + x div n mod 256 = x div n"
  by (simp add: div_mult2_eq)

lemma be_split:
  fixes x :: nat
  assumes "x < 2 ^ 64"
  shows "(((((((x div 2 ^ 56 mod 256) * 256 + x div 2 ^ 48 mod 256) * 256 + x div 2 ^ 40 mod 256) * 256
      + x div 2 ^ 32 mod 256) * 256 + x div 2 ^ 24 mod 256) * 256 + x div 2 ^ 16 mod 256) * 256
      + x div 2 ^ 8 mod 256) * 256 + x mod 256 = x"
proof -
  from assms have "x div 2 ^ 56 < 256"
    by (simp add: less_mult_imp_div_less)
  then have "x div 2 ^ 56 mod 256 = x div 2 ^ 56"
    by simp
  moreover have "x div 2 ^ 56 * 256 + x div 2 ^ 48 mod 256 = x div 2 ^ 48"
    using be_step [of x "2 ^ 48"] by simp
  moreover have "x div 2 ^ 48 * 256 + x div 2 ^ 40 mod 256 = x div 2 ^ 40"
    using be_step [of x "2 ^ 40"] by simp
  moreover have "x div 2 ^ 40 * 256 + x div 2 ^ 32 mod 256 = x div 2 ^ 32"
    using be_step [of x "2 ^ 32"] by simp
  moreover have "x div 2 ^ 32 * 256 + x div 2 ^ 24 mod 256 = x div 2 ^ 24"
    using be_step [of x "2 ^ 24"] by simp
  moreover have "x div 2 ^ 24 * 256 + x div 2 ^ 16 mod 256 = x div 2 ^ 16"
    using be_step [of x "2 ^ 16"] by simp
  moreover have "x div 2 ^ 16 * 256 + x div 2 ^ 8 mod 256 = x div 2 ^ 8"
    using be_step [of x "2 ^ 8"] by simp
  moreover have "x div 2 ^ 8 * 256 + x mod 256 = x"
    using be_step [of x 1] by simp
  ultimately show ?thesis
    by (simp only:)
qed

lemma challenge_loop_numeral:
  "challenge_loop (numeral k) time challenge =
    challenge_loop (pred_numeral k) (drop_bit 8 time) (challenge[pred_numeral k := ucast time])"
  by (simp add: numeral_eq_Suc)

lemma challenge_of_bytes:
  "challenge_of time =
    [ucast (drop_bit 56 time), ucast (drop_bit 48 time), ucast (drop_bit 40 time),
     ucast (drop_bit 32 time), ucast (drop_bit 24 time), ucast (drop_bit 16 time),
     ucast (drop_bit 8 time), ucast time]"
proof -
  have "replicate 8 (0::byte) = [0, 0, 0, 0, 0, 0, 0, 0]"
    by (simp add: numeral_eq_Suc)
  then show ?thesis
    by (simp add: challenge_of_def challenge_loop_numeral drop_bit_drop_bit)
qed

lemma challenge_of_value: "spec_be_value (challenge_of time) = unat time"
proof -
  have "unat time < 2 ^ LENGTH(64)"
    by (rule unsigned_less)
  then have "unat time < 2 ^ 64"
    by simp
  from be_split [OF this] show ?thesis
    using unat_byte_at [of 0 time]
    by (simp add: challenge_of_bytes spec_be_value_def unat_byte_at)
qed

text \<open>
  Claim C8: \<^verbatim>\<open>Generate\<close> writes the 64-bit counter into exactly 8 bytes, the most
  significant first, so that the bytes read as a big-endian number are the counter; and
  it calls \<^verbatim>\<open>hmac\<close> with the decoded secret as the key and these bytes as the message.
  Its result is the same for every provider with the same \<^verbatim>\<open>out_size\<close> whose \<^verbatim>\<open>hmac\<close>
  returns the same digest for this key and this message, whatever it returns elsewhere;
  and where that digest has \<^verbatim>\<open>out_size\<close> bytes and holds the four bytes from its offset
  on, the result is the code of RFC 4226 for that digest.
\<close>

theorem Generate_hmac_arguments:
  assumes provider: "Hash t = Some h"
    and key: "Decode secret = Inr key"
  shows "length (challenge_of time) = 8
    \<and> challenge_of time =
        [ucast (drop_bit 56 time), ucast (drop_bit 48 time), ucast (drop_bit 40 time),
         ucast (drop_bit 32 time), ucast (drop_bit 24 time), ucast (drop_bit 16 time),
         ucast (drop_bit 8 time), ucast time]
    \<and> spec_be_value (challenge_of time) = unat time
    \<and> (\<forall>h'. out_size h' = out_size h
          \<and> hmac h' key (map char_of_byte (challenge_of time)) =
              hmac h key (map char_of_byte (challenge_of time))
        \<longrightarrow> Generate (t\<lparr>Hash := Some h'\<rparr>) secret time = Generate t secret time)
    \<and> (let digest = hmac h key (map char_of_byte (challenge_of time))
       in unat (out_size h) = length digest \<and> of_char (last digest) mod 16 + 4 \<le> length digest
        \<longrightarrow> Generate t secret time =
            Inr (spec_decimal_padded 6 (spec_dynamic_truncation digest)))"
proof -
  have "Generate (t\<lparr>Hash := Some h'\<rparr>) secret time = Generate t secret time"
    if "out_size h' = out_size h"
      and "hmac h' key (map char_of_byte (challenge_of time)) =
        hmac h key (map char_of_byte (challenge_of time))" for h'
    using that by (simp add: Generate_def provider key Let_def cong: sum.case_cong)
  moreover have "length (challenge_of time) = 8"
    by (simp add: challenge_of_bytes)
  moreover have "Generate t secret time =
      Inr (spec_decimal_padded 6 (spec_dynamic_truncation digest))"
    if "digest = hmac h key (map char_of_byte (challenge_of time))"
      and "unat (out_size h) = length digest"
      and "of_char (last digest) mod 16 + 4 \<le> length digest" for digest
    using provider key that by (rule Generate_code(1))
  ultimately show ?thesis
    using challenge_of_bytes [of time] challenge_of_value [of time]
    unfolding Let_def by blast
qed

theorem Generate_hmac_arguments_witness:
  "Hash \<lparr>Hash = Some (point_provider ''Hello''
          (map char_of_byte [1, 2, 3, 4, 5, 6, 7, 8]) example_digest), Window = 5\<rparr>
      = Some (point_provider ''Hello'' (map char_of_byte [1, 2, 3, 4, 5, 6, 7, 8]) example_digest)
   \<and> Decode ''JBSWY3DP'' = Inr ''Hello''
   \<and> challenge_of 0x0102030405060708 = [1, 2, 3, 4, 5, 6, 7, 8]
   \<and> spec_be_value [1, 2, 3, 4, 5, 6, 7, 8] = 0x0102030405060708
   \<and> unat (out_size (point_provider ''Hello''
          (map char_of_byte [1, 2, 3, 4, 5, 6, 7, 8]) example_digest)) = length example_digest
   \<and> of_char (last example_digest) mod 16 + 4 \<le> length example_digest
   \<and> Generate \<lparr>Hash = Some (point_provider ''Hello''
          (map char_of_byte [1, 2, 3, 4, 5, 6, 7, 8]) example_digest), Window = 5\<rparr>
        ''JBSWY3DP'' 0x0102030405060708 = Inr ''000042''
   \<and> Generate \<lparr>Hash = Some (fixed_provider example_digest), Window = 5\<rparr>
        ''JBSWY3DP'' 0x0102030405060708 = Inr ''000042''
   \<and> Generate \<lparr>Hash = Some (point_provider ''Hellp''
          (map char_of_byte [1, 2, 3, 4, 5, 6, 7, 8]) example_digest), Window = 5\<rparr>
        ''JBSWY3DP'' 0x0102030405060708 = Inl IndexOutOfRange
   \<and> Generate \<lparr>Hash = Some (point_provider ''Hello''
          (map char_of_byte [8, 7, 6, 5, 4, 3, 2, 1]) example_digest), Window = 5\<rparr>
        ''JBSWY3DP'' 0x0102030405060708 = Inl IndexOutOfRange"
proof -
  define msg where "msg = map char_of_byte [1, 2, 3, 4, 5, 6, 7, 8]"
  define P where "P = fixed_provider example_digest"
  define Q where "Q = point_provider ''Hello'' msg example_digest"
  have key: "Decode ''JBSWY3DP'' = Inr ''Hello''"
    by code_simp
  have bytes: "challenge_of 0x0102030405060708 = [1, 2, 3, 4, 5, 6, 7, 8]"
    by code_simp
  have val: "spec_be_value [1, 2, 3, 4, 5, 6, 7, 8] = 0x0102030405060708"
    by (simp add: spec_be_value_def)
  have digest: "hmac Q ''Hello'' (map char_of_byte (challenge_of 0x0102030405060708)) = example_digest"
    by (simp add: bytes Q_def msg_def point_provider_def)
  have size: "unat (out_size Q) = length example_digest"
    by (simp add: Q_def point_provider_def example_digest_def)
  have offset: "of_char (last example_digest) mod 16 + 4 \<le> length example_digest"
    by (simp add: example_digest_def)
  have code: "spec_decimal_padded 6 (spec_dynamic_truncation example_digest) = ''000042''"
    by (simp add: spec_dynamic_truncation_def spec_be32_at_def example_digest_def
        spec_decimal_padded_6 digit_chars)
  have provider: "Hash \<lparr>Hash = Some Q, Window = 5\<rparr> = Some Q"
    by simp
  have same: "out_size P = out_size Q"
    "hmac P ''Hello'' (map char_of_byte (challenge_of 0x0102030405060708)) =
      hmac Q ''Hello'' (map char_of_byte (challenge_of 0x0102030405060708))"
    by (simp_all add: digest) (simp_all add: P_def Q_def fixed_provider_def point_provider_def)
  note inst = Generate_hmac_arguments [OF provider key, of "0x0102030405060708"]
  from inst digest size offset
  have q: "Generate \<lparr>Hash = Some Q, Window = 5\<rparr> ''JBSWY3DP'' 0x0102030405060708 = Inr ''000042''"
    by (simp add: Let_def code)
  from inst same
  have "Generate (\<lparr>Hash = Some Q, Window = 5\<rparr>\<lparr>Hash := Some P\<rparr>) ''JBSWY3DP'' 0x0102030405060708 =
      Generate \<lparr>Hash = Some Q, Window = 5\<rparr> ''JBSWY3DP'' 0x0102030405060708"
    by blast
  with q have p: "Generate \<lparr>Hash = Some P, Window = 5\<rparr> ''JBSWY3DP'' 0x0102030405060708 = Inr ''000042''"
    by simp
  have other_key: "Generate \<lparr>Hash = Some (point_provider ''Hellp'' msg example_digest), Window = 5\<rparr>
        ''JBSWY3DP'' 0x0102030405060708 = Inl IndexOutOfRange"
    by (simp add: Generate_def key bytes msg_def point_provider_def string_at_def)
  have other_msg: "Generate \<lparr>Hash = Some (point_provider ''Hello''
          (map char_of_byte [8, 7, 6, 5, 4, 3, 2, 1]) example_digest), Window = 5\<rparr>
        ''JBSWY3DP'' 0x0102030405060708 = Inl IndexOutOfRange"
    by (simp add: Generate_def key bytes point_provider_def string_at_def char_of_byte_def)
  from q p other_key other_msg show ?thesis
    unfolding P_def Q_def msg_def
    using key bytes val size [unfolded Q_def msg_def] offset by simp
qed

section \<open>The counters that \<^verbatim>\<open>TOTP::Validate\<close> tries\<close>

lemma unat_succ:
  fixes time time_end :: ulong
  assumes "time < time_end"
  shows "unat (time + 1) = unat time + 1"
proof -
  from assms have "unat time < unat time_end"
    by (simp add: word_less_nat_alt)
  moreover have "unat time_end < 2 ^ LENGTH(64)"
    by (rule unsigned_less)
  ultimately have "unat time + unat (1 :: ulong) < 2 ^ LENGTH(64)"
    by simp
  then show ?thesis
    by (simp only: unat_add_lem [THEN iffD1] unat_1)
qed

lemma Validate_loop_eq:
  assumes defined: "\<And>c. \<exists>g. Generate t secret c = Inr g"
  shows "Validate_loop t secret code time time_end =
    Inr (\<exists>c. time \<le> c \<and> c < time_end \<and> Generate t secret c = Inr code)"
  using defined
proof (induction t secret code time time_end rule: Validate_loop.induct)
  case (1 t secret code time time_end)
  show ?case
  proof (cases "time < time_end")
    case False
    then show ?thesis
      by (subst Validate_loop.simps) auto
  next
    case True
    from "1.prems" obtain g where g: "Generate t secret time = Inr g"
      by blast
    show ?thesis
    proof (cases "g = code")
      case same: True
      with True g show ?thesis
        by (subst Validate_loop.simps) auto
    next
      case other: False
      have "(\<exists>c. time + 1 \<le> c \<and> c < time_end \<and> Generate t secret c = Inr code) \<longleftrightarrow>
          (\<exists>c. time \<le> c \<and> c < time_end \<and> Generate t secret c = Inr code)"
        (is "?L \<longleftrightarrow> ?R")
      proof
        assume ?L
        then obtain c where c: "time + 1 \<le> c" "c < time_end" "Generate t secret c = Inr code"
          by blast
        from c(1) have "time \<le> c"
          using unat_succ [OF True] by (simp add: word_le_nat_alt)
        with c show ?R
          by blast
      next
        assume ?R
        then obtain c where c: "time \<le> c" "c < time_end" "Generate t secret c = Inr code"
          by blast
        with g other have "c \<noteq> time"
          by auto
        with c(1) have "time + 1 \<le> c"
          using unat_succ [OF True] by (simp add: word_le_nat_alt) (metis le_neq_implies_less Suc_leI word_unat_eq_iff)
        with c show ?L
          by blast
      qed
      with "1.IH" [OF True g other "1.prems"] True g other show ?thesis
        by (subst Validate_loop.simps) simp
    qed
  qed
qed



lemma sdiv_c_nonneg: "0 \<le> a \<Longrightarrow> sdiv_c a 30 = a div 30"
  by (simp add: sdiv_c_def sgn_if)

lemma uint_word_of_int_ulong: "0 \<le> i \<Longrightarrow> i < 2 ^ 64 \<Longrightarrow> uint (word_of_int i :: ulong) = i"
  by (simp add: uint_word_of_int_eq take_bit_int_eq_self)

lemma ulong_range:
  assumes "0 \<le> a" "a < 2 ^ 64" "0 \<le> b" "b < 2 ^ 64"
  shows "(\<exists>c :: ulong. word_of_int a \<le> c \<and> c < word_of_int b \<and> P c) \<longleftrightarrow>
    (\<exists>i \<in> {a..<b}. P (word_of_int i))"
proof
  assume "\<exists>c :: ulong. word_of_int a \<le> c \<and> c < word_of_int b \<and> P c"
  then obtain c :: ulong where c: "word_of_int a \<le> c" "c < word_of_int b" "P c"
    by blast
  with assms have "a \<le> uint c" "uint c < b"
    by (simp_all add: word_le_def word_less_def uint_word_of_int_ulong)
  moreover from c have "P (word_of_int (uint c))"
    by simp
  ultimately have "uint c \<in> {a..<b} \<and> P (word_of_int (uint c))"
    by simp
  then show "\<exists>i \<in> {a..<b}. P (word_of_int i)"
    by (intro bexI [of _ "uint c"]) simp_all
next
  assume "\<exists>i \<in> {a..<b}. P (word_of_int i)"
  then obtain i where i: "a \<le> i" "i < b" "P (word_of_int i)"
    by auto
  with assms have "uint (word_of_int i :: ulong) = i"
    by (simp add: uint_word_of_int_ulong)
  with assms i have "(word_of_int a :: ulong) \<le> word_of_int i" "(word_of_int i :: ulong) < word_of_int b"
    by (simp_all add: word_le_def word_less_def uint_word_of_int_ulong)
  with i show "\<exists>c :: ulong. word_of_int a \<le> c \<and> c < word_of_int b \<and> P c"
    by blast
qed

text \<open>
  Claim C2: with \<open>now\<close> the current Unix time and \<open>w\<close> the window, \<^verbatim>\<open>Validate\<close> tries
  the counters from \<open>start = (now - 30 * w) div 30\<close> up to, and not including,
  \<open>stop = (now + 30 * w) div 30\<close>, and returns true exactly when \<^verbatim>\<open>Generate\<close> gives the
  candidate for one of them; the counter \<open>stop\<close> itself is not tried, and for \<open>w = 1\<close> the
  counters tried are \<open>now div 30 - 1\<close> and \<open>now div 30\<close>, so that a code of another counter
  is accepted only where it is also the code of one of these two.  The hypotheses keep the
  arithmetic of the code in its range (\<open>start\<close> is not negative, \<^verbatim>\<open>30 * Window\<close> fits an
  \<^verbatim>\<open>int\<close>, the sum a \<^verbatim>\<open>long\<close>) and say that \<^verbatim>\<open>Generate\<close> returns for this secret.
\<close>

theorem Validate_half_open_range:
  assumes window: "0 \<le> Window t" "30 * Window t < 2 ^ 31"
    and now: "30 * Window t \<le> now" "now + 30 * Window t < 2 ^ 63"
    and defined: "\<And>c. \<exists>g. Generate t secret c = Inr g"
  shows "let start = (now - 30 * Window t) div 30; stop = (now + 30 * Window t) div 30
    in Validate t now secret code =
        Inr (\<exists>c \<in> {start..<stop}. Generate t secret (word_of_int c) = Inr code)
      \<and> stop \<notin> {start..<stop}
      \<and> (Window t = 1 \<longrightarrow> {start..<stop} = {now div 30 - 1, now div 30})"
proof -
  define start stop where "start = (now - 30 * Window t) div 30"
    and "stop = (now + 30 * Window t) div 30"
  from window now have range: "0 \<le> start" "start < 2 ^ 64" "0 \<le> stop" "stop < 2 ^ 64"
    by (simp_all add: start_def stop_def)
  from window now have "in_int (30 * Window t)" "in_long (now - 30 * Window t)"
      "in_long (now + 30 * Window t)"
    by (simp_all add: in_int_def in_long_def)
  moreover from window now have "sdiv_c (now - 30 * Window t) 30 = start"
      "sdiv_c (now + 30 * Window t) 30 = stop"
    by (simp_all add: sdiv_c_nonneg start_def stop_def)
  ultimately have "Validate t now secret code =
      Validate_loop t secret code (word_of_int start) (word_of_int stop)"
    by (simp add: Validate_def Let_def)
  also have "\<dots> = Inr (\<exists>c. word_of_int start \<le> c \<and> c < word_of_int stop
      \<and> Generate t secret c = Inr code)"
    using defined by (rule Validate_loop_eq)
  also have "\<dots> = Inr (\<exists>c \<in> {start..<stop}. Generate t secret (word_of_int c) = Inr code)"
    using ulong_range [OF range, of "\<lambda>c. Generate t secret c = Inr code"] by simp
  finally have "Validate t now secret code =
      Inr (\<exists>c \<in> {start..<stop}. Generate t secret (word_of_int c) = Inr code)" .
  moreover have "{start..<stop} = {now div 30 - 1, now div 30}" if "Window t = 1"
    using that by (auto simp: start_def stop_def)
  moreover have "stop \<notin> {start..<stop}"
    by simp
  ultimately show ?thesis
    unfolding Let_def start_def [symmetric] stop_def [symmetric] by blast
qed

lemma counter_provider_defined:
  assumes "Decode secret = Inr key"
  shows "\<exists>g. Generate \<lparr>Hash = Some counter_provider, Window = w\<rparr> secret c = Inr g"
proof -
  define digest where "digest = hmac counter_provider key (map char_of_byte (challenge_of c))"
  have "length digest = 20" "last digest = CHR 0x00"
    by (simp_all add: digest_def counter_provider_def challenge_of_bytes)
  then have "unat (out_size counter_provider) = length digest"
      "of_char (last digest) mod 16 + 4 \<le> length digest"
    by (simp_all add: counter_provider_def)
  from Generate_code(1) [OF _ assms digest_def this, of "\<lparr>Hash = Some counter_provider, Window = w\<rparr>"]
  show ?thesis
    by simp
qed

theorem Validate_half_open_range_witness:
  "0 \<le> Window \<lparr>Hash = Some counter_provider, Window = 1\<rparr>
   \<and> 30 * Window \<lparr>Hash = Some counter_provider, Window = 1\<rparr> < 2 ^ 31
   \<and> 30 * Window \<lparr>Hash = Some counter_provider, Window = 1\<rparr> \<le> 1700000000
   \<and> 1700000000 + 30 * Window \<lparr>Hash = Some counter_provider, Window = 1\<rparr> < 2 ^ 63
   \<and> (\<forall>c. \<exists>g. Generate \<lparr>Hash = Some counter_provider, Window = 1\<rparr> ''JBSWY3DP'' c = Inr g)
   \<and> (1700000000 - 30) div 30 = (56666665 :: int) \<and> (1700000000 + 30) div 30 = (56666667 :: int)
   \<and> Generate \<lparr>Hash = Some counter_provider, Window = 1\<rparr> ''JBSWY3DP'' 56666664 = Inr ''666664''
   \<and> Generate \<lparr>Hash = Some counter_provider, Window = 1\<rparr> ''JBSWY3DP'' 56666665 = Inr ''666665''
   \<and> Generate \<lparr>Hash = Some counter_provider, Window = 1\<rparr> ''JBSWY3DP'' 56666666 = Inr ''666666''
   \<and> Generate \<lparr>Hash = Some counter_provider, Window = 1\<rparr> ''JBSWY3DP'' 56666667 = Inr ''666667''
   \<and> Validate \<lparr>Hash = Some counter_provider, Window = 1\<rparr> 1700000000 ''JBSWY3DP'' ''666664'' = Inr False
   \<and> Validate \<lparr>Hash = Some counter_provider, Window = 1\<rparr> 1700000000 ''JBSWY3DP'' ''666665'' = Inr True
   \<and> Validate \<lparr>Hash = Some counter_provider, Window = 1\<rparr> 1700000000 ''JBSWY3DP'' ''666666'' = Inr True
   \<and> Validate \<lparr>Hash = Some counter_provider, Window = 1\<rparr> 1700000000 ''JBSWY3DP'' ''666667'' = Inr False"
proof -
  define T where "T = \<lparr>Hash = Some counter_provider, Window = 1\<rparr>"
  have key: "Decode ''JBSWY3DP'' = Inr ''Hello''"
    by code_simp
  have defined: "\<exists>g. Generate T ''JBSWY3DP'' c = Inr g" for c
    unfolding T_def using key by (rule counter_provider_defined)
  have g4: "Generate T ''JBSWY3DP'' 56666664 = Inr ''666664''"
    unfolding T_def by code_simp
  have g5: "Generate T ''JBSWY3DP'' 56666665 = Inr ''666665''"
    unfolding T_def by code_simp
  have g6: "Generate T ''JBSWY3DP'' 56666666 = Inr ''666666''"
    unfolding T_def by code_simp
  have g7: "Generate T ''JBSWY3DP'' 56666667 = Inr ''666667''"
    unfolding T_def by code_simp
  have w: "0 \<le> Window T" "30 * Window T < 2 ^ 31" "30 * Window T \<le> 1700000000"
      "1700000000 + 30 * Window T < 2 ^ 63" "Window T = 1"
    by (simp_all add: T_def)
  have "Validate T 1700000000 ''JBSWY3DP'' code =
      Inr (Generate T ''JBSWY3DP'' 56666665 = Inr code \<or> Generate T ''JBSWY3DP'' 56666666 = Inr code)"
    for code
    using Validate_half_open_range [OF w(1-4) defined, of code] w(5)
    by (simp add: Let_def)
  then show ?thesis
    using defined by (simp add: g4 g5 g6 g7 T_def [symmetric] w)
qed

section \<open>No provider\<close>

lemma Generate_unavailable: "Hash t = None \<Longrightarrow> Generate t secret time = Inr []"
  by (simp add: Generate_def)

lemma Validate_unavailable_nonempty:
  assumes "Hash t = None" and "code \<noteq> []"
    and "in_int (30 * Window t)" "in_long (now - 30 * Window t)" "in_long (now + 30 * Window t)"
  shows "Validate t now secret code = Inr False"
proof -
  have "\<exists>g. Generate t secret c = Inr g" for c
    using assms(1) by (simp add: Generate_unavailable)
  from Validate_loop_eq [of t secret, OF this] assms show ?thesis
    by (simp add: Validate_def Let_def Generate_unavailable)
qed

text \<open>
  Claim C5: without a provider \<^verbatim>\<open>Generate\<close> returns the empty string, for every secret and
  counter, and \<^verbatim>\<open>Validate\<close> returns false for every candidate code and window.  The
  first half holds (\<open>Generate_unavailable\<close>); the second holds for every candidate but
  the empty one (\<open>Validate_unavailable_nonempty\<close>): \<^verbatim>\<open>Validate\<close> compares the empty
  string that \<^verbatim>\<open>Generate\<close> returns with the candidate, and accepts the empty candidate.
\<close>

theorem Validate_unavailable_accepts_empty_code:
  "Generate \<lparr>Hash = None, Window = 5\<rparr> ''JBSWY3DP'' 56666661 = Inr []
   \<and> Validate \<lparr>Hash = None, Window = 5\<rparr> 1700000000 ''JBSWY3DP'' [] = Inr True"
  by (simp add: Validate_def in_int_def in_long_def sdiv_c_def Validate_loop.simps Generate_def)

section \<open>Characters outside the alphabet\<close>

lemma find_from_not_mem: "c \<notin> set xs \<Longrightarrow> find_from i xs c = 2 ^ 64 - 1"
  by (induction xs arbitrary: i) auto

lemma Decode_step_skip: "c \<notin> set Base32Chars \<Longrightarrow> Decode_step c s = Inr s"
  by (simp add: Decode_step_def find_char_def find_from_not_mem)

lemma Decode_loop_filter:
  "Decode_loop (filter (\<lambda>c. c \<in> set Base32Chars) xs) s = Decode_loop xs s"
  by (induction xs arbitrary: s) (auto simp: Decode_step_skip split: sum.splits)

lemma Decode_step_wider:
  assumes "length r \<le> length r'" and "take (length r) r' = r"
    and "Decode_step c \<lparr>buffer = b, left = l, count = n, ret = r\<rparr> = Inr s1"
  shows "\<exists>r1'. Decode_step c \<lparr>buffer = b, left = l, count = n, ret = r'\<rparr> =
        Inr \<lparr>buffer = buffer s1, left = left s1, count = count s1, ret = r1'\<rparr>
      \<and> length (ret s1) \<le> length r1' \<and> take (length (ret s1)) r1' = ret s1"
  using assms
  by (auto simp: Decode_step_def Let_def shr_uint_def string_set_def take_update_swap
      split: if_splits)

lemma Decode_loop_wider:
  assumes "length r \<le> length r'" and "take (length r) r' = r"
    and "Decode_loop xs \<lparr>buffer = b, left = l, count = n, ret = r\<rparr> = Inr s1"
  shows "\<exists>r1'. Decode_loop xs \<lparr>buffer = b, left = l, count = n, ret = r'\<rparr> =
        Inr \<lparr>buffer = buffer s1, left = left s1, count = count s1, ret = r1'\<rparr>
      \<and> length (ret s1) \<le> length r1' \<and> take (length (ret s1)) r1' = ret s1"
  using assms
proof (induction xs arbitrary: b l n r r')
  case Nil
  then show ?case by auto
next
  case (Cons c xs)
  from Cons.prems(3) obtain s2
    where s2: "Decode_step c \<lparr>buffer = b, left = l, count = n, ret = r\<rparr> = Inr s2"
      "Decode_loop xs s2 = Inr s1"
    by (auto split: sum.splits)
  from Decode_step_wider [OF Cons.prems(1,2) s2(1)]
  obtain r2' where r2': "Decode_step c \<lparr>buffer = b, left = l, count = n, ret = r'\<rparr> =
        Inr \<lparr>buffer = buffer s2, left = left s2, count = count s2, ret = r2'\<rparr>"
      "length (ret s2) \<le> length r2'" "take (length (ret s2)) r2' = ret s2"
    by blast
  from s2(2) have "Decode_loop xs \<lparr>buffer = buffer s2, left = left s2, count = count s2,
      ret = ret s2\<rparr> = Inr s1"
    by (cases s2) simp
  from Cons.IH [OF r2'(2,3) this] r2'(1) show ?case
    by simp
qed

lemma Decode_final_wider:
  assumes "length r \<le> length r'" and "take (length r) r' = r"
    and "Decode_final \<lparr>buffer = b, left = l, count = n, ret = r\<rparr> = Inr s1"
  shows "\<exists>r1'. Decode_final \<lparr>buffer = b, left = l, count = n, ret = r'\<rparr> =
        Inr \<lparr>buffer = buffer s1, left = left s1, count = count s1, ret = r1'\<rparr>
      \<and> length (ret s1) \<le> length r1' \<and> take (length (ret s1)) r1' = ret s1"
  using assms
  by (auto simp: Decode_final_def Let_def shr_uint_def string_set_def take_update_swap
      split: if_splits)

lemma Decode_step_count:
  "Decode_step c s = Inr s1 \<Longrightarrow> count s \<le> length (ret s) \<Longrightarrow> count s1 \<le> length (ret s1)"
  by (auto simp: Decode_step_def Let_def shr_uint_def string_set_def split: if_splits)

lemma Decode_loop_count:
  "Decode_loop xs s = Inr s1 \<Longrightarrow> count s \<le> length (ret s) \<Longrightarrow> count s1 \<le> length (ret s1)"
proof (induction xs arbitrary: s)
  case Nil
  then show ?case by simp
next
  case (Cons c xs)
  from Cons.prems(1) obtain s2 where "Decode_step c s = Inr s2" "Decode_loop xs s2 = Inr s1"
    by (auto split: sum.splits)
  with Cons.IH [of s2] Cons.prems(2) Decode_step_count [of c s s2] show ?case
    by simp
qed

lemma Decode_final_count:
  "Decode_final s = Inr s1 \<Longrightarrow> count s \<le> length (ret s) \<Longrightarrow> count s1 \<le> length (ret s1)"
  by (auto simp: Decode_final_def Let_def shr_uint_def string_set_def split: if_splits)

lemma Decode_lenient:
  assumes same: "filter (\<lambda>c. c \<in> set Base32Chars) s' = filter (\<lambda>c. c \<in> set Base32Chars) s"
    and longer: "length s \<le> length s'"
    and result: "Decode s = Inr bytes"
  shows "Decode s' = Inr bytes"
proof -
  define r r' :: string where "r = resize ((length s * 5) div 8) (CHR 0x00) []"
    and "r' = resize ((length s' * 5) div 8) (CHR 0x00) []"
  from longer have "(length s * 5) div 8 \<le> (length s' * 5) div 8"
    by (simp add: div_le_mono)
  then have rr: "length r \<le> length r'" "take (length r) r' = r"
    by (simp_all add: r_def r'_def resize_def min_def)
  from result obtain s1 s2
    where loop: "Decode_loop s \<lparr>buffer = 0, left = 0, count = 0, ret = r\<rparr> = Inr s1"
      and final: "Decode_final s1 = Inr s2"
      and bytes: "bytes = resize (count s2) (CHR 0x00) (ret s2)"
    by (auto simp: Decode_def Let_def r_def split: sum.splits)
  from loop have c1: "count s1 \<le> length (ret s1)"
    by (rule Decode_loop_count) simp
  with final have c2: "count s2 \<le> length (ret s2)"
    by (rule Decode_final_count)
  from loop have "Decode_loop (filter (\<lambda>c. c \<in> set Base32Chars) s)
      \<lparr>buffer = 0, left = 0, count = 0, ret = r\<rparr> = Inr s1"
    by (simp only: Decode_loop_filter)
  from Decode_loop_wider [OF rr this] obtain r1'
    where loop': "Decode_loop s' \<lparr>buffer = 0, left = 0, count = 0, ret = r'\<rparr> =
        Inr \<lparr>buffer = buffer s1, left = left s1, count = count s1, ret = r1'\<rparr>"
      and r1': "length (ret s1) \<le> length r1'" "take (length (ret s1)) r1' = ret s1"
    unfolding same [symmetric] Decode_loop_filter by blast
  from final have "Decode_final \<lparr>buffer = buffer s1, left = left s1, count = count s1,
      ret = ret s1\<rparr> = Inr s2"
    by (cases s1) simp
  from Decode_final_wider [OF r1' this] obtain r2'
    where final': "Decode_final \<lparr>buffer = buffer s1, left = left s1, count = count s1, ret = r1'\<rparr> =
        Inr \<lparr>buffer = buffer s2, left = left s2, count = count s2, ret = r2'\<rparr>"
      and r2': "length (ret s2) \<le> length r2'" "take (length (ret s2)) r2' = ret s2"
    by blast
  from c2 r2' have "take (count s2) r2' = take (count s2) (ret s2)"
    by (metis min.absorb1 take_take)
  with c2 r2'(1) have "resize (count s2) (CHR 0x00) r2' = resize (count s2) (CHR 0x00) (ret s2)"
    by (simp add: resize_def)
  then show ?thesis
    by (simp add: Decode_def Let_def r'_def [symmetric] loop' final' bytes)
qed

text \<open>
  Claim C6: \<^verbatim>\<open>Decode\<close> raises no error on any string and skips every character that is
  not in the alphabet, so that a string and the same string with such characters inserted
  decode to the same bytes.  The scan does skip them (\<open>Decode_step_skip\<close>), and where
  \<^verbatim>\<open>Decode\<close> returns for a string it returns the same bytes for every string that is at
  least as long and has the same characters of the alphabet (\<open>Decode_lenient\<close>), as for
  \<^verbatim>\<open>"JBSWY3DP"\<close> and \<^verbatim>\<open>"JB-SWY3!DP"\<close>.  The code does not keep the claim where the shorter
  string overruns its buffer: on \<^verbatim>\<open>"J"\<close> the write of the last byte is out of bounds,
  whereas on \<^verbatim>\<open>"J-"\<close> the buffer has one character and \<^verbatim>\<open>Decode\<close> returns \<^verbatim>\<open>"H"\<close>.
\<close>

theorem Decode_inserted_character_changes_result:
  "Decode ''J'' = Inl IndexOutOfRange \<and> Decode ''J-'' = Inr ''H''
   \<and> Decode ''JBSWY3DP'' = Inr ''Hello'' \<and> Decode ''JB-SWY3!DP'' = Inr ''Hello''"
proof -
  have "Decode ''J'' = Inl IndexOutOfRange"
    by code_simp
  moreover have "Decode ''J-'' = Inr ''H''"
    by code_simp
  moreover have "Decode ''JBSWY3DP'' = Inr ''Hello''"
    by code_simp
  moreover have "Decode ''JB-SWY3!DP'' = Inr ''Hello''"
    by code_simp
  ultimately show ?thesis
    by simp
qed

section \<open>Faults of \<^verbatim>\<open>Base32::Decode\<close>\<close>

text \<open>
  Claim C9: whenever the branch after the loop of \<^verbatim>\<open>Decode\<close> runs, at least 3 bits are
  left over, so that the shift by \<^verbatim>\<open>left - 3\<close> is defined.  The code does not keep this:
  on \<^verbatim>\<open>"AA"\<close> the loop ends with \<open>left = 2\<close>, the \<^verbatim>\<open>size_t\<close> difference wraps around to
  \<open>2 ^ 64 - 1\<close>, and the shift of the 32-bit buffer by that amount is undefined.
\<close>

theorem Decode_two_symbols_shift_underflow:
  "map_sum id left
     (Decode_loop ''AA'' \<lparr>buffer = 0, left = 0, count = 0, ret = [CHR 0x00]\<rparr>) = Inr 2
   \<and> (2 + 2 ^ 64 - 3) mod 2 ^ 64 = (2 ^ 64 - 1 :: nat)
   \<and> Decode ''AA'' = Inl ShiftOutOfRange"
proof -
  have "map_sum id left
     (Decode_loop ''AA'' \<lparr>buffer = 0, left = 0, count = 0, ret = [CHR 0x00]\<rparr>) = Inr 2"
    by code_simp
  moreover have "Decode ''AA'' = Inl ShiftOutOfRange"
    by code_simp
  ultimately show ?thesis
    by simp
qed

text \<open>
  Claim C10: \<^verbatim>\<open>Decode\<close> emits at most \<open>(5 * n) div 8\<close> bytes on an input of \<open>n\<close>
  characters, the size it gives to \<^verbatim>\<open>ret\<close> beforehand, so that every write
  \<^verbatim>\<open>ret[count]\<close> is within bounds.  The code does not keep this: on \<^verbatim>\<open>"J"\<close> the string
  \<^verbatim>\<open>ret\<close> has size 0 and the branch after the loop writes \<^verbatim>\<open>ret[0]\<close>.
\<close>

theorem Decode_single_symbol_overruns_buffer:
  "length (resize ((length ''J'' * 5) div 8) (CHR 0x00) []) = 0
   \<and> Decode ''J'' = Inl IndexOutOfRange"
proof -
  have "Decode ''J'' = Inl IndexOutOfRange"
    by code_simp
  then show ?thesis
    by (simp add: resize_def)
qed

end
